theory Spec2Isabelle
  imports Main "HOL-Library.Word"
begin

section \<open>Documents, slots and the hash table\<close>

text \<open>
  An \<open>Item\<close> is what the store's clients hand in and what the flusher hands to the
  persistence layer: \<open>ep.cc\<close> builds it as
  \<open>Item(key, v->getFlags(), v->getExptime(), v->getValue())\<close>.
\<close>

record Item =
  item_key :: string
  item_flags :: "32 word"
  item_exptime :: "32 word"
  item_value :: string

text \<open>Relative time in seconds, \<open>rel_time_t\<close>: an unsigned 32-bit number.\<close>

type_synonym rel_time_t = "32 word"

text \<open>
  Modelled from the spec: the document slot \<open>StoredValue\<close> (its header is not among the
  sources). One record per key: key, value payload, flags, expiry, the dirty flag and the
  deleted (tombstone) flag, and the two times that \<open>markClean\<close> hands to the flusher:
  \<open>sv_queued\<close>, when the slot became dirty (the flusher's "dirty age" counts from it),
  and \<open>sv_dirtied\<close>, when the slot was last modified (its "data age" counts from it).
\<close>

record StoredValue =
  sv_key :: string
  sv_value :: string
  sv_flags :: "32 word"
  sv_exptime :: "32 word"
  sv_dirty :: bool
  sv_deleted :: bool
  sv_queued :: rel_time_t
  sv_dirtied :: rel_time_t

text \<open>
  The result of a hash-table \<open>set\<close>. \<open>ep.cc\<close> names \<open>WAS_CLEAN\<close> and \<open>NOT_FOUND\<close>;
  the test suite names was-clean and was-dirty; the spec adds a distinct result for a slot
  allocation that failed.
\<close>

datatype mutation_type_t = NOT_FOUND | WAS_CLEAN | WAS_DIRTY | NOMEM

text \<open>
  Modelled from the spec: the class \<open>HashTable\<close> (its header and implementation are not
  among the sources; the test suite \<open>hash_table_test.cc\<close> and the store \<open>ep.cc\<close> only
  call it). It owns an array of bucket chains, a fixed number of locks, and the aggregate
  counters \<open>numItems\<close> and \<open>numDeletedItems\<close>. The hash function is a parameter \<open>h\<close>
  of every operation that needs it.
\<close>

record HashTable =
  ht_size :: nat
  n_locks :: nat
  ht_values :: "StoredValue list list"
  numItems :: nat
  numDeletedItems :: nat

type_synonym hashfn = "string \<Rightarrow> nat"

text \<open>Modelled from the spec: the constructor \<open>HashTable(stats, factory, size, locks)\<close>.\<close>

definition new_HashTable :: "nat \<Rightarrow> nat \<Rightarrow> HashTable" where
  "new_HashTable s l =
     \<lparr>ht_size = s, n_locks = l, ht_values = replicate s [], numItems = 0,
      numDeletedItems = 0\<rparr>"

text \<open>
  Modelled from the spec: deterministic bucket selection by key hash, and the lock of a
  bucket (bucket index modulo lock count).
\<close>

definition bucket :: "hashfn \<Rightarrow> HashTable \<Rightarrow> string \<Rightarrow> nat" where
  "bucket h ht k = h k mod ht_size ht"

definition getMutex :: "HashTable \<Rightarrow> nat \<Rightarrow> nat" where
  "getMutex ht bucket_num = bucket_num mod n_locks ht"

definition chain :: "HashTable \<Rightarrow> nat \<Rightarrow> StoredValue list" where
  "chain ht b = (if b < length (ht_values ht) then ht_values ht ! b else [])"

text \<open>
  Modelled from the spec: \<open>unlocked_find\<close> returns the live slot of the key, or its
  tombstone when deleted slots are wanted, or nothing. \<open>ep.cc\<close> calls it with the key
  and the bucket number only, which does not ask for tombstones.
\<close>

definition unlocked_find ::
  "HashTable \<Rightarrow> string \<Rightarrow> nat \<Rightarrow> bool \<Rightarrow> StoredValue option" where
  "unlocked_find ht k bucket_num wantsDeleted =
     (case List.find (\<lambda>v. sv_key v = k) (chain ht bucket_num) of
        None \<Rightarrow> None
      | Some v \<Rightarrow> if sv_deleted v \<and> \<not> wantsDeleted then None else Some v)"

definition find_slot :: "hashfn \<Rightarrow> HashTable \<Rightarrow> string \<Rightarrow> bool \<Rightarrow> StoredValue option" where
  "find_slot h ht k wantsDeleted = unlocked_find ht k (bucket h ht k) wantsDeleted"

definition set_chain :: "HashTable \<Rightarrow> nat \<Rightarrow> StoredValue list \<Rightarrow> HashTable" where
  "set_chain ht b c = ht\<lparr>ht_values := (ht_values ht)[b := c]\<rparr>"

definition new_slot :: "rel_time_t \<Rightarrow> Item \<Rightarrow> StoredValue" where
  "new_slot now i =
     \<lparr>sv_key = item_key i, sv_value = item_value i, sv_flags = item_flags i,
      sv_exptime = item_exptime i, sv_dirty = True, sv_deleted = False,
      sv_queued = now, sv_dirtied = now\<rparr>"

definition setValue :: "rel_time_t \<Rightarrow> Item \<Rightarrow> StoredValue \<Rightarrow> StoredValue" where
  "setValue now i v =
     v\<lparr>sv_value := item_value i, sv_flags := item_flags i, sv_exptime := item_exptime i,
       sv_dirty := True, sv_deleted := False,
       sv_queued := (if sv_dirty v then sv_queued v else now), sv_dirtied := now\<rparr>"

definition update_slot ::
  "string \<Rightarrow> (StoredValue \<Rightarrow> StoredValue) \<Rightarrow> StoredValue list \<Rightarrow> StoredValue list" where
  "update_slot k f c = map (\<lambda>v. if sv_key v = k then f v else v) c"

text \<open>
  Modelled from the spec: \<open>HashTable::set\<close> locates the slot of the key; if absent it
  inserts a new dirty slot and counts it; if present it overwrites value and metadata in
  place and marks the slot dirty (a tombstone becomes live again). The result tells a
  slot that was clean (first write, or previously flushed) from one that was dirty. The
  slot is stamped with the time \<open>now\<close> of the mutation: its last modification, and,
  when it was not dirty before, the start of its being dirty.
\<close>

definition ht_set ::
  "hashfn \<Rightarrow> rel_time_t \<Rightarrow> Item \<Rightarrow> HashTable \<Rightarrow> mutation_type_t \<times> HashTable" where
  "ht_set h now i ht =
     (let b = bucket h ht (item_key i) in
      case unlocked_find ht (item_key i) b True of
        None \<Rightarrow>
          (WAS_CLEAN,
           (set_chain ht b (new_slot now i # chain ht b))\<lparr>numItems := numItems ht + 1\<rparr>)
      | Some v \<Rightarrow>
          (if sv_dirty v then WAS_DIRTY else WAS_CLEAN,
           (set_chain ht b (update_slot (item_key i) (setValue now i) (chain ht b)))
             \<lparr>numDeletedItems :=
                (if sv_deleted v then numDeletedItems ht - 1 else numDeletedItems ht)\<rparr>))"

text \<open>
  Modelled from the spec: \<open>unlocked_del\<close> releases the slot of the key from its chain
  and from the counters; \<open>unlocked_softDelete\<close> turns a live slot into a dirty tombstone.
\<close>

definition unlocked_del :: "HashTable \<Rightarrow> nat \<Rightarrow> string \<Rightarrow> HashTable" where
  "unlocked_del ht b k =
     (case unlocked_find ht k b True of
        None \<Rightarrow> ht
      | Some v \<Rightarrow>
          (set_chain ht b (filter (\<lambda>u. sv_key u \<noteq> k) (chain ht b)))
            \<lparr>numItems := numItems ht - 1,
             numDeletedItems :=
               (if sv_deleted v then numDeletedItems ht - 1 else numDeletedItems ht)\<rparr>)"

definition unlocked_softDelete :: "HashTable \<Rightarrow> nat \<Rightarrow> string \<Rightarrow> HashTable" where
  "unlocked_softDelete ht b k =
     (case unlocked_find ht k b False of
        None \<Rightarrow> ht
      | Some v \<Rightarrow>
          (set_chain ht b
             (update_slot k (\<lambda>u. u\<lparr>sv_dirty := True, sv_deleted := True\<rparr>) (chain ht b)))
            \<lparr>numDeletedItems := numDeletedItems ht + 1\<rparr>)"

text \<open>
  The helper \<open>del\<close> of \<open>hash_table_test.cc\<close>: look the key up (tombstones included),
  answer false when there is no slot, otherwise \<open>unlocked_del\<close> it and answer true.
  The store's \<open>storage.del(key)\<close>, whose result \<open>ep.cc\<close> calls \<open>existed\<close>, is taken
  to be this operation.
\<close>

definition ht_del :: "hashfn \<Rightarrow> string \<Rightarrow> HashTable \<Rightarrow> bool \<times> HashTable" where
  "ht_del h k ht =
     (let b = bucket h ht k in
      case unlocked_find ht k b True of
        None \<Rightarrow> (False, ht)
      | Some v \<Rightarrow> (True, unlocked_del ht b k))"

text \<open>
  Modelled from the spec: \<open>markClean\<close> clears the dirty flag of the slot of a key (and
  reports the slot's two times, which \<open>flushOne\<close> below reads from the slot it found).
\<close>

definition markClean :: "HashTable \<Rightarrow> nat \<Rightarrow> string \<Rightarrow> HashTable" where
  "markClean ht b k = set_chain ht b (update_slot k (\<lambda>u. u\<lparr>sv_dirty := False\<rparr>) (chain ht b))"

text \<open>Modelled from the spec: \<open>clear\<close> releases every slot.\<close>

definition clear :: "HashTable \<Rightarrow> HashTable" where
  "clear ht = ht\<lparr>ht_values := replicate (ht_size ht) [], numItems := 0, numDeletedItems := 0\<rparr>"

definition getNumItems :: "HashTable \<Rightarrow> nat" where
  "getNumItems ht = numItems ht"

definition getNumDeletedItems :: "HashTable \<Rightarrow> nat" where
  "getNumDeletedItems ht = numDeletedItems ht"

section \<open>The persistence layer\<close>

text \<open>
  Modelled from the spec: the persistence layer is an external collaborator offering
  \<open>begin\<close>, \<open>set\<close>, \<open>del\<close>, \<open>commit\<close> and \<open>reset\<close>. The model records the calls that
  completed, oldest first, and carries a fuse: with \<open>Some n\<close> the next \<open>n\<close> calls
  complete and the call after them throws (once); with \<open>None\<close> no call throws.
\<close>

datatype kv_op = Begin | SetOp Item | DelOp string | Commit | ResetOp

record KVStore =
  ops :: "kv_op list"
  fuse :: "nat option"

text \<open>
  How a call ends: it returns, it throws an exception, an \<open>assert\<close> fails and aborts the
  process, or its behaviour is undefined.
\<close>

datatype outcome = Returned | Thrown | Aborted | Undefined

definition kv_call :: "kv_op \<Rightarrow> KVStore \<Rightarrow> outcome \<times> KVStore" where
  "kv_call op kv =
     (case fuse kv of
        None \<Rightarrow> (Returned, kv\<lparr>ops := ops kv @ [op]\<rparr>)
      | Some 0 \<Rightarrow> (Thrown, kv\<lparr>fuse := None\<rparr>)
      | Some (Suc n) \<Rightarrow> (Returned, kv\<lparr>ops := ops kv @ [op], fuse := Some n\<rparr>))"

section \<open>The store of \<open>ep.cc\<close>\<close>

datatype flusher_state = STOPPED | RUNNING | SHUTTING_DOWN

text \<open>
  The members of \<open>EventuallyPersistentStore\<close> that \<open>ep.cc\<close> reads and writes, the
  statistics of \<open>stats\<close> among them (the struct is declared in the absent header; the
  ages and durations are taken to be \<open>rel_time_t\<close>, the type of the differences assigned
  to them). \<open>threads_started\<close> counts the worker threads that \<open>pthread_create\<close> has
  launched, and \<open>clock_reads\<close> the calls of \<open>ep_current_time\<close> made so far.
\<close>

record EPStore =
  storage :: HashTable
  towrite :: "string list"
  flusherState :: flusher_state
  txnSize :: int
  underlying :: KVStore
  queue_size :: "64 word"
  flusher_todo :: "64 word"
  threads_started :: nat
  dirtyAge :: rel_time_t
  dataAge :: rel_time_t
  dirtyAgeHighWat :: rel_time_t
  dataAgeHighWat :: rel_time_t
  flushDuration :: rel_time_t
  flushDurationHighWat :: rel_time_t
  commit_time :: rel_time_t
  clock_reads :: nat

text \<open>
  \<open>ep_current_time\<close> is a function pointer that the host sets. Its successive results
  are a parameter \<open>clk\<close> of every function that reads the time (directly or through a
  function it calls): the call number \<open>n\<close>, counted from 0, returns \<open>clk n\<close>.
\<close>

type_synonym clock = "nat \<Rightarrow> rel_time_t"

definition ep_current_time :: "clock \<Rightarrow> EPStore \<Rightarrow> rel_time_t \<times> EPStore" where
  "ep_current_time clk st = (clk (clock_reads st), st\<lparr>clock_reads := clock_reads st + 1\<rparr>)"

definition initQueue :: "EPStore \<Rightarrow> EPStore" where
  "initQueue st = st\<lparr>queue_size := 0, towrite := []\<rparr>"

text \<open>
  Modelled from the spec: \<open>queueDirty\<close> (declared in the absent header) appends the key
  to the current dirty queue.
\<close>

definition queueDirty :: "string \<Rightarrow> EPStore \<Rightarrow> EPStore" where
  "queueDirty k st = st\<lparr>towrite := towrite st @ [k]\<rparr>"

text \<open>
  \<open>startFlusher\<close>: a no-op unless the state is \<open>STOPPED\<close>; otherwise it creates the
  worker thread and sets \<open>RUNNING\<close>. When \<open>pthread_create\<close> fails (\<open>created\<close> is
  false) it throws before the state is written.
\<close>

definition startFlusher :: "bool \<Rightarrow> EPStore \<Rightarrow> outcome \<times> EPStore" where
  "startFlusher created st =
     (if flusherState st \<noteq> STOPPED then (Returned, st)
      else if \<not> created then (Thrown, st)
      else (Returned, st\<lparr>threads_started := threads_started st + 1, flusherState := RUNNING\<rparr>))"

definition stopFlusher :: "EPStore \<Rightarrow> EPStore" where
  "stopFlusher st =
     (if flusherState st \<noteq> RUNNING then st else st\<lparr>flusherState := SHUTTING_DOWN\<rparr>)"

definition getFlusherState :: "EPStore \<Rightarrow> flusher_state" where
  "getFlusherState st = flusherState st"

definition flusherStopped :: "EPStore \<Rightarrow> EPStore" where
  "flusherStopped st = st\<lparr>flusherState := STOPPED\<rparr>"

text \<open>
  \<open>EventuallyPersistentStore::set\<close>. The hash-table \<open>set\<close> is a parameter of
  \<open>set_with\<close>, so that the store's part can be read for every mutation result; a
  callback is the list of the values it has been called with. In \<open>ep_set\<close> the
  hash-table \<open>set\<close> is the one modelled above, which stamps the slot with the time it
  reads from the clock.
\<close>

definition set_with ::
  "(Item \<Rightarrow> HashTable \<Rightarrow> mutation_type_t \<times> HashTable) \<Rightarrow> Item \<Rightarrow> bool list \<Rightarrow> EPStore
     \<Rightarrow> bool list \<times> EPStore" where
  "set_with storage_set item cb st =
     (let (mtype, ht) = storage_set item (storage st);
          st1 = st\<lparr>storage := ht\<rparr>;
          st2 = (if mtype = WAS_CLEAN \<or> mtype = NOT_FOUND
                 then queueDirty (item_key item) st1 else st1);
          rv = True
      in (cb @ [rv], st2))"

definition ep_set ::
  "hashfn \<Rightarrow> clock \<Rightarrow> Item \<Rightarrow> bool list \<Rightarrow> EPStore \<Rightarrow> bool list \<times> EPStore" where
  "ep_set h clk item cb st =
     (let (now, st0) = ep_current_time clk st in set_with (ht_set h now) item cb st0)"

text \<open>\<open>EventuallyPersistentStore::del\<close>.\<close>

definition ep_del :: "hashfn \<Rightarrow> string \<Rightarrow> bool list \<Rightarrow> EPStore \<Rightarrow> bool list \<times> EPStore" where
  "ep_del h k cb st =
     (let (existed, ht) = ht_del h k (storage st);
          st1 = st\<lparr>storage := ht\<rparr>;
          st2 = (if existed then queueDirty k st1 else st1)
      in (cb @ [existed], st2))"

text \<open>
  Calls of the persistence layer from the store: the call's outcome, and the store with
  the persistence layer as the call left it.
\<close>

definition underlying_call :: "kv_op \<Rightarrow> EPStore \<Rightarrow> outcome \<times> EPStore" where
  "underlying_call op st =
     (let (oc, kv) = kv_call op (underlying st) in (oc, st\<lparr>underlying := kv\<rparr>))"

text \<open>
  \<open>flushOne\<close> pops the front key and re-resolves it in the hash table. A key not found
  is counted off \<open>flusher_todo\<close> and a \<open>del\<close> is issued; a slot found clean is counted
  off and nothing is issued. A slot found dirty is marked clean, which yields its two
  times \<open>queued\<close> and \<open>dirtied\<close>; then come, in the order of the source,
  \<open>assert(dirtied > 0)\<close>, the reading of the clock, the two ages, the assertions
  \<open>dirtyAge < 86400 * 30\<close> and \<open>dataAge <= dirtyAge\<close>, the two high-water marks, the
  copy of the slot, the count-down, and the \<open>set\<close>. All times and ages are unsigned
  32-bit numbers: differences wrap around and comparisons are unsigned. A failed
  assertion ends the process. Reading the front of an empty queue is undefined in the
  source.
\<close>

fun flushOne ::
  "hashfn \<Rightarrow> clock \<Rightarrow> string list \<Rightarrow> EPStore \<Rightarrow> outcome \<times> string list \<times> EPStore" where
  "flushOne h clk [] st = (Undefined, [], st)"
| "flushOne h clk (k # q) st =
     (let bucket_num = bucket h (storage st) k;
          v = unlocked_find (storage st) k bucket_num False
      in case v of
           None \<Rightarrow>
             (let st2 = st\<lparr>flusher_todo := flusher_todo st - 1\<rparr>;
                  (oc, st3) = underlying_call (DelOp k) st2
              in (oc, q, st3))
         | Some sv \<Rightarrow>
             if \<not> sv_dirty sv then (Returned, q, st\<lparr>flusher_todo := flusher_todo st - 1\<rparr>)
             else
               (let queued = sv_queued sv;
                    dirtied = sv_dirtied sv;
                    st1 = st\<lparr>storage := markClean (storage st) bucket_num k\<rparr>
                in if \<not> 0 < dirtied then (Aborted, q, st1)
                   else
                     (let (now, st2) = ep_current_time clk st1;
                          st3 = st2\<lparr>dirtyAge := now - queued, dataAge := now - dirtied\<rparr>
                      in if \<not> dirtyAge st3 < 86400 * 30 then (Aborted, q, st3)
                         else if \<not> dataAge st3 \<le> dirtyAge st3 then (Aborted, q, st3)
                         else
                           (let st4 = st3
                                  \<lparr>dirtyAgeHighWat :=
                                     (if dirtyAge st3 > dirtyAgeHighWat st3 then dirtyAge st3
                                      else dirtyAgeHighWat st3),
                                   dataAgeHighWat :=
                                     (if dataAge st3 > dataAgeHighWat st3 then dataAge st3
                                      else dataAgeHighWat st3)\<rparr>;
                                val = \<lparr>item_key = k, item_flags = sv_flags sv,
                                       item_exptime = sv_exptime sv, item_value = sv_value sv\<rparr>;
                                st5 = st4\<lparr>flusher_todo := flusher_todo st4 - 1\<rparr>;
                                (oc, st6) = underlying_call (SetOp val) st5
                            in (oc, q, st6)))))"

text \<open>
  The \<open>for\<close> loop of \<open>flushSome\<close>: \<open>i\<close> counts up to \<open>txnSize\<close> while the queue is not
  empty; an exception or a failed assertion of \<open>flushOne\<close> leaves the loop.
\<close>

function flushSome_loop ::
  "hashfn \<Rightarrow> clock \<Rightarrow> int \<Rightarrow> string list \<Rightarrow> EPStore \<Rightarrow> outcome \<times> string list \<times> EPStore" where
  "flushSome_loop h clk i q st =
     (if i < txnSize st \<and> q \<noteq> []
      then (case flushOne h clk q st of
              (Returned, q', st') \<Rightarrow> flushSome_loop h clk (i + 1) q' st'
            | r \<Rightarrow> r)
      else (Returned, q, st))"
  by pat_completeness auto
termination
proof (relation "measure (\<lambda>(h, clk, i, q, st). length q)")
  show "wf (measure (\<lambda>(h, clk, i, q, st). length q))"
    by simp
next
  fix h :: hashfn and clk :: clock and i :: int and q q' :: "string list"
    and st st' :: EPStore and oc :: outcome and y :: "string list \<times> EPStore"
  assume "i < txnSize st \<and> q \<noteq> []" and "(oc, y) = flushOne h clk q st" and "(q', st') = y"
  then show "((h, clk, i + 1, q', st'), (h, clk, i, q, st))
      \<in> measure (\<lambda>(h, clk, i, q, st). length q)"
    by (cases q) (auto simp: Let_def split: option.splits if_splits prod.splits)
qed

declare flushSome_loop.simps [simp del]

text \<open>
  \<open>flushSome\<close>: one transaction. \<open>begin\<close>, the loop, the time before the commit,
  \<open>commit\<close>, the time after it, and the commit duration. An exception or a failed
  assertion leaves the function at once.
\<close>

definition flushSome ::
  "hashfn \<Rightarrow> clock \<Rightarrow> string list \<Rightarrow> EPStore \<Rightarrow> outcome \<times> string list \<times> EPStore" where
  "flushSome h clk q st =
     (case underlying_call Begin st of
        (Returned, st1) \<Rightarrow>
          (case flushSome_loop h clk 0 q st1 of
             (Returned, q', st2) \<Rightarrow>
               (let (cstart, st3) = ep_current_time clk st2 in
                case underlying_call Commit st3 of
                  (Returned, st4) \<Rightarrow>
                    (let (complete_time, st5) = ep_current_time clk st4
                     in (Returned, q', st5\<lparr>commit_time := complete_time - cstart\<rparr>))
                | (oc, st4) \<Rightarrow> (oc, q', st4))
           | r \<Rightarrow> r)
      | (oc, st1) \<Rightarrow> (oc, q, st1))"

text \<open>
  The \<open>while\<close> loop of \<open>flush\<close> calls \<open>flushSome\<close> until the swapped-out queue is
  empty. Nothing in the source bounds the number of rounds, so the loop is a partial
  function: \<open>None\<close> is a loop that does not return.
\<close>

partial_function (option) flush_loop ::
  "hashfn \<Rightarrow> clock \<Rightarrow> string list \<Rightarrow> EPStore \<Rightarrow> (outcome \<times> EPStore) option" where
  "flush_loop h clk q st =
     (if q = [] then Some (Returned, st)
      else (case flushSome h clk q st of
              (Returned, q', st') \<Rightarrow> flush_loop h clk q' st'
            | (oc, q', st') \<Rightarrow> Some (oc, st')))"

declare flush_loop.simps [code]

text \<open>
  \<open>flush\<close>: with an empty dirty queue there is nothing to write; \<open>dirtyAge\<close> is reset
  (with \<open>shouldWait\<close> the source then waits on the store's condition variable until a
  producer or \<open>stopFlusher\<close> signals it; the model returns). Otherwise the time is
  read, the queue is swapped for a fresh one, \<open>flusher_todo\<close> is set to its size, it is
  drained, the time is read again, and the duration and its high-water mark are kept.
\<close>

definition flush ::
  "hashfn \<Rightarrow> clock \<Rightarrow> bool \<Rightarrow> EPStore \<Rightarrow> (outcome \<times> EPStore) option" where
  "flush h clk shouldWait st =
     (if towrite st = [] then Some (Returned, st\<lparr>dirtyAge := 0\<rparr>)
      else (let (flush_start, st0) = ep_current_time clk st;
                q = towrite st0;
                st1 = initQueue (st0\<lparr>towrite := []\<rparr>);
                st2 = st1\<lparr>flusher_todo := of_nat (length q)\<rparr>
            in case flush_loop h clk q st2 of
                 None \<Rightarrow> None
               | Some (Returned, st3) \<Rightarrow>
                   (let (complete_time, st4) = ep_current_time clk st3;
                        st5 = st4\<lparr>flushDuration := complete_time - flush_start\<rparr>
                    in Some (Returned,
                         st5\<lparr>flushDurationHighWat :=
                               (if flushDuration st5 > flushDurationHighWat st5
                                then flushDuration st5 else flushDurationHighWat st5)\<rparr>))
               | Some (oc, st3) \<Rightarrow> Some (oc, st3)))"






section \<open>Traversal, counting and resizing of the hash table\<close>

text \<open>
  Modelled from the spec: \<open>visit\<close> invokes the visitor once per live and once per
  tombstoned slot, bucket by bucket, and stops as soon as the visitor answers false.
\<close>

fun visit_chain :: "('a \<Rightarrow> StoredValue \<Rightarrow> bool \<times> 'a) \<Rightarrow> StoredValue list \<Rightarrow> 'a \<Rightarrow> bool \<times> 'a" where
  "visit_chain f [] a = (True, a)"
| "visit_chain f (v # vs) a =
     (case f a v of (True, a') \<Rightarrow> visit_chain f vs a' | (False, a') \<Rightarrow> (False, a'))"

fun visit_buckets ::
  "('a \<Rightarrow> StoredValue \<Rightarrow> bool \<times> 'a) \<Rightarrow> StoredValue list list \<Rightarrow> 'a \<Rightarrow> 'a" where
  "visit_buckets f [] a = a"
| "visit_buckets f (c # cs) a =
     (case visit_chain f c a of (True, a') \<Rightarrow> visit_buckets f cs a' | (False, a') \<Rightarrow> a')"

definition visit :: "('a \<Rightarrow> StoredValue \<Rightarrow> bool \<times> 'a) \<Rightarrow> HashTable \<Rightarrow> 'a \<Rightarrow> 'a" where
  "visit f ht a = visit_buckets f (ht_values ht) a"

text \<open>
  The visitor \<open>Counter\<close> of \<open>hash_table_test.cc\<close> (its verification of values left out)
  and the helper \<open>count\<close>, which compares \<open>getNumItems\<close> with the two counts and
  returns the number of live slots.
\<close>

record Counter =
  count :: nat
  deleted :: nat

definition Counter_visit :: "Counter \<Rightarrow> StoredValue \<Rightarrow> bool \<times> Counter" where
  "Counter_visit c v =
     (if sv_deleted v then (True, c\<lparr>deleted := deleted c + 1\<rparr>)
      else (True, c\<lparr>count := count c + 1\<rparr>))"

definition count_items :: "HashTable \<Rightarrow> bool \<times> nat" where
  "count_items ht =
     (let c = visit Counter_visit ht \<lparr>count = 0, deleted = 0\<rparr>
      in (getNumItems ht = count c + deleted c, count c))"

text \<open>
  Modelled from the spec: \<open>resize(newSize)\<close>. With \<open>newSize = 0\<close> the new bucket count
  is chosen from the item count (the precomputed sequence is not given; the choice is the
  parameter \<open>auto\<close>), otherwise it is the requested size. A size out of range (zero, or
  beyond the largest \<open>int\<close>, as in the test \<open>Resize\<close>) is a no-op. Otherwise every slot
  is rehashed into a fresh bucket array.
\<close>

definition max_ht_size :: nat where
  "max_ht_size = 2147483647"

definition rehash_slot :: "hashfn \<Rightarrow> nat \<Rightarrow> StoredValue \<Rightarrow> StoredValue list list \<Rightarrow> StoredValue list list" where
  "rehash_slot h n v vals = vals[h (sv_key v) mod n := v # vals ! (h (sv_key v) mod n)]"

definition resize :: "hashfn \<Rightarrow> (nat \<Rightarrow> nat) \<Rightarrow> nat \<Rightarrow> HashTable \<Rightarrow> HashTable" where
  "resize h auto newSize ht =
     (let n = (if newSize = 0 then auto (numItems ht) else newSize) in
      if n = 0 \<or> max_ht_size < n then ht
      else if n = ht_size ht then ht
      else ht\<lparr>ht_size := n,
              ht_values := fold (rehash_slot h n) (concat (ht_values ht)) (replicate n [])\<rparr>)"

text \<open>
  Sequences of hash-table operations, applied to a table from left to right. A \<open>set\<close>
  comes with the time at which it happens.
\<close>

datatype ht_op =
  OpSet rel_time_t Item | OpDel string | OpSoftDelete string | OpResize nat | OpClear

fun apply_op :: "hashfn \<Rightarrow> (nat \<Rightarrow> nat) \<Rightarrow> ht_op \<Rightarrow> HashTable \<Rightarrow> HashTable" where
  "apply_op h auto (OpSet now i) ht = snd (ht_set h now i ht)"
| "apply_op h auto (OpDel k) ht = snd (ht_del h k ht)"
| "apply_op h auto (OpSoftDelete k) ht = unlocked_softDelete ht (bucket h ht k) k"
| "apply_op h auto (OpResize n) ht = resize h auto n ht"
| "apply_op h auto OpClear ht = clear ht"

definition apply_ops :: "hashfn \<Rightarrow> (nat \<Rightarrow> nat) \<Rightarrow> ht_op list \<Rightarrow> HashTable \<Rightarrow> HashTable" where
  "apply_ops h auto os ht = fold (apply_op h auto) os ht"

section \<open>Tasks and their comparators (\<open>tasks.h\<close>)\<close>

datatype task_state_t = TASK_RUNNING | TASK_DEAD

record timeval =
  tv_sec :: int
  tv_usec :: int

text \<open>
  Modelled from the spec: \<open>less_tv a b\<close> (not among the sources) holds when the time
  \<open>a\<close> is earlier than the time \<open>b\<close>.
\<close>

definition less_tv :: "timeval \<Rightarrow> timeval \<Rightarrow> bool" where
  "less_tv a b = (tv_sec a < tv_sec b \<or> (tv_sec a = tv_sec b \<and> tv_usec a < tv_usec b))"

text \<open>
  The members of \<open>GlobalTask\<close> that the comparators read. The class \<open>Priority\<close> is not
  among the sources: its \<open>==\<close> and \<open><\<close> are taken to be the equality and the strict
  order of a linearly ordered type \<open>'p\<close>.
\<close>

record 'p GlobalTask =
  priority :: 'p
  state :: task_state_t
  taskId :: "64 word"
  waketime :: timeval

definition CompareByPriority :: "('p::linorder) GlobalTask \<Rightarrow> 'p GlobalTask \<Rightarrow> bool" where
  "CompareByPriority t1 t2 =
     (if priority t1 = priority t2 then taskId t1 > taskId t2
      else priority t1 < priority t2)"

definition CompareByDueDate :: "'p GlobalTask \<Rightarrow> 'p GlobalTask \<Rightarrow> bool" where
  "CompareByDueDate t1 t2 = less_tv (waketime t2) (waketime t1)"

text \<open>
  Both classes are comparators of a priority queue: \<open>Compare t1 t2\<close> places \<open>t1\<close> below
  \<open>t2\<close>, and the queue serves its topmost element first. So \<open>a\<close> is served before
  \<open>b\<close> by the ready queue when \<open>CompareByPriority b a\<close>.
\<close>

definition ready_before :: "('p::linorder) GlobalTask \<Rightarrow> 'p GlobalTask \<Rightarrow> bool" where
  "ready_before a b = CompareByPriority b a"

text \<open>
  The ordering as the specification words it: by priority, higher first; within equal
  priority by earlier due date; then by lower id.
\<close>

definition spec_ready_before :: "('p::linorder) GlobalTask \<Rightarrow> 'p GlobalTask \<Rightarrow> bool" where
  "spec_ready_before a b =
     (priority b < priority a \<or>
      (priority a = priority b \<and>
        (less_tv (waketime a) (waketime b) \<or>
         (waketime a = waketime b \<and> taskId a < taskId b))))"

section \<open>Construction, lifecycle events and sample data\<close>

text \<open>
  The constructor of the store: statistics zeroed, an empty queue, the state \<open>STOPPED\<close>,
  the default transaction size (\<open>DEFAULT_TXN_SIZE\<close>, a parameter: its definition is not among the
  sources), then \<open>startFlusher\<close>. The initial hash table is a parameter as well.
\<close>

definition new_EPStore :: "KVStore \<Rightarrow> HashTable \<Rightarrow> int \<Rightarrow> bool \<Rightarrow> outcome \<times> EPStore" where
  "new_EPStore t ht DEFAULT_TXN_SIZE created =
     startFlusher created
       (initQueue
          \<lparr>storage = ht, towrite = [], flusherState = STOPPED, txnSize = DEFAULT_TXN_SIZE,
           underlying = t, queue_size = 0, flusher_todo = 0, threads_started = 0,
           dirtyAge = 0, dataAge = 0, dirtyAgeHighWat = 0, dataAgeHighWat = 0,
           flushDuration = 0, flushDurationHighWat = 0, commit_time = 0, clock_reads = 0\<rparr>)"

text \<open>
  The three places of \<open>ep.cc\<close> that write \<open>flusherState\<close>, as events: a client's
  \<open>startFlusher\<close> (with the success of \<open>pthread_create\<close>), a client's \<open>stopFlusher\<close>,
  and the worker's exit path, which calls \<open>flusherStopped\<close>.
\<close>

datatype flusher_event = StartFlusher bool | StopFlusher | WorkerExit

fun lifecycle_step :: "flusher_event \<Rightarrow> EPStore \<Rightarrow> EPStore" where
  "lifecycle_step (StartFlusher created) st = snd (startFlusher created st)"
| "lifecycle_step StopFlusher st = stopFlusher st"
| "lifecycle_step WorkerExit st = flusherStopped st"

fun lifecycle_next :: "flusher_state \<Rightarrow> flusher_state \<Rightarrow> bool" where
  "lifecycle_next STOPPED s = (s = RUNNING)"
| "lifecycle_next RUNNING s = (s = SHUTTING_DOWN)"
| "lifecycle_next SHUTTING_DOWN s = (s = STOPPED)"

text \<open>
  Sample data: a hash function, a clock that stands at 100 seconds, a persistence layer
  that never throws, a fresh store.
\<close>

definition ex_hash :: hashfn where
  "ex_hash k = length k"

definition ex_clock :: clock where
  "ex_clock n = 100"

definition ex_kv :: KVStore where
  "ex_kv = \<lparr>ops = [], fuse = None\<rparr>"

definition ex_store :: EPStore where
  "ex_store = snd (new_EPStore ex_kv (new_HashTable 5 1) 2 True)"

definition ex_item :: "string \<Rightarrow> string \<Rightarrow> Item" where
  "ex_item k v = \<lparr>item_key = k, item_flags = 0, item_exptime = 0, item_value = v\<rparr>"

definition ex_store_set1 :: EPStore where
  "ex_store_set1 = snd (ep_set ex_hash ex_clock (ex_item ''k1'' ''v1'') [] ex_store)"

definition ex_store_flushed :: EPStore where
  "ex_store_flushed =
     (case flush ex_hash ex_clock False ex_store_set1 of
        Some (oc, st) \<Rightarrow> st
      | None \<Rightarrow> ex_store_set1)"

definition ex_task_a :: "int GlobalTask" where
  "ex_task_a = \<lparr>priority = 1, state = TASK_RUNNING, taskId = 1,
                 waketime = \<lparr>tv_sec = 100, tv_usec = 0\<rparr>\<rparr>"

definition ex_task_b :: "int GlobalTask" where
  "ex_task_b = \<lparr>priority = 1, state = TASK_RUNNING, taskId = 2,
                 waketime = \<lparr>tv_sec = 50, tv_usec = 0\<rparr>\<rparr>"


definition agree :: "EPStore \<Rightarrow> EPStore \<Rightarrow> bool" where
  "agree a b =
     (storage a = storage b \<and> towrite a = towrite b \<and> flusherState a = flusherState b
      \<and> txnSize a = txnSize b \<and> underlying a = underlying b \<and> queue_size a = queue_size b
      \<and> flusher_todo a = flusher_todo b \<and> threads_started a = threads_started b)"






text \<open>
  The shape of a hash table: a positive bucket count, and one chain per bucket. Every
  table made by \<open>new_HashTable\<close> with a positive size has it, and the operations keep it.
\<close>

definition ht_wf :: "HashTable \<Rightarrow> bool" where
  "ht_wf ht = (0 < ht_size ht \<and> length (ht_values ht) = ht_size ht)"




text \<open>
  The invariant of the hash table: the shape above; every slot sits in the bucket its
  key hashes to; no chain holds two slots of one key; \<open>numItems\<close> is the number of
  slots and \<open>numDeletedItems\<close> the number of tombstones.
\<close>

definition ht_inv :: "hashfn \<Rightarrow> HashTable \<Rightarrow> bool" where
  "ht_inv h ht =
     (ht_wf ht
      \<and> (\<forall>b \<in> {..<length (ht_values ht)}.
            (\<forall>v \<in> set (ht_values ht ! b). h (sv_key v) mod ht_size ht = b)
            \<and> distinct (map sv_key (ht_values ht ! b)))
      \<and> numItems ht = length (concat (ht_values ht))
      \<and> numDeletedItems ht = length (filter sv_deleted (concat (ht_values ht))))"

text \<open>Sample data: a sequence of hash-table operations and the table it builds.\<close>

definition ex_ops :: "ht_op list" where
  "ex_ops =
     [OpSet 1 (ex_item ''a'' ''1''), OpSet 2 (ex_item ''bb'' ''2''),
      OpSet 3 (ex_item ''cccccc'' ''3''), OpSoftDelete ''a'', OpSet 4 (ex_item ''dddddd'' ''4''),
      OpDel ''bb'', OpSet 5 (ex_item ''e'' ''5''), OpSoftDelete ''cccccc'']"

definition ex_table :: HashTable where
  "ex_table = apply_ops ex_hash (\<lambda>n. 769) ex_ops (new_HashTable 5 3)"




section \<open>Lookups in the hash table after an update\<close>

lemma bucket_in_range: "ht_wf ht \<Longrightarrow> bucket h ht k < length (ht_values ht)"
  by (simp add: ht_wf_def bucket_def)


lemma set_chain_sel [simp]:
  "ht_size (set_chain ht b c) = ht_size ht"
  "length (ht_values (set_chain ht b c)) = length (ht_values ht)"
  "numItems (set_chain ht b c) = numItems ht"
  "numDeletedItems (set_chain ht b c) = numDeletedItems ht"
  by (simp_all add: set_chain_def)

lemma chain_counters [simp]:
  "chain (ht\<lparr>numItems := n\<rparr>) b = chain ht b"
  "chain (ht\<lparr>numDeletedItems := n\<rparr>) b = chain ht b"
  by (simp_all add: chain_def)




lemma find_filter_other:
  "k' \<noteq> k \<Longrightarrow>
   List.find (\<lambda>v. sv_key v = k') (filter (\<lambda>u. sv_key u \<noteq> k) c) = List.find (\<lambda>v. sv_key v = k') c"
  by (induction c) auto







section \<open>Properties of the store's write path\<close>

text \<open>
  C10. \<open>EventuallyPersistentStore::set\<close> calls its callback exactly once, with the value
  true, whatever mutation result the hash table's \<open>set\<close> returned: the callback's record
  grows by the single entry \<open>True\<close>, for every function standing for the hash-table
  \<open>set\<close> and so for every result it can produce.
\<close>

theorem set_callback_always_true:
  "fst (set_with storage_set item cb st) = cb @ [True]
   \<and> fst (ep_set h clk item cb st) = cb @ [True]"
  by (simp add: set_with_def ep_set_def Let_def split: prod.splits)

theorem set_callback_always_true_witness:
  "fst (set_with (\<lambda>i ht. (NOMEM, ht)) (ex_item ''k1'' ''v1'') [] ex_store) = [True]
   \<and> fst (ep_set ex_hash ex_clock (ex_item ''k1'' ''v1'') [] ex_store) = [True]"
  using set_callback_always_true
    [of "\<lambda>i ht. (NOMEM, ht)" "ex_item ''k1'' ''v1''" "[]" ex_store ex_hash ex_clock]
  by simp

text \<open>
  C9. When \<open>flushOne\<close> pops a key whose slot is found in the hash table and is not
  dirty, it issues no persistence operation: it returns with the entry popped, and the
  store is as before (hash table and persistence layer included) but for
  \<open>flusher_todo\<close>, which is counted down by one.
\<close>

theorem flushOne_clean_slot_discarded:
  assumes "unlocked_find (storage st) k (bucket h (storage st) k) False = Some sv"
    and "\<not> sv_dirty sv"
  shows "flushOne h clk (k # q) st = (Returned, q, st\<lparr>flusher_todo := flusher_todo st - 1\<rparr>)"
  using assms by (simp add: Let_def)

theorem flushOne_clean_slot_discarded_witness:
  "unlocked_find (storage ex_store_flushed) ''k1''
       (bucket ex_hash (storage ex_store_flushed) ''k1'') False
     = Some \<lparr>sv_key = ''k1'', sv_value = ''v1'', sv_flags = 0, sv_exptime = 0,
             sv_dirty = False, sv_deleted = False, sv_queued = 100, sv_dirtied = 100\<rparr>
   \<and> flushOne ex_hash ex_clock [''k1'', ''k2''] ex_store_flushed
     = (Returned, [''k2''],
        ex_store_flushed\<lparr>flusher_todo := flusher_todo ex_store_flushed - 1\<rparr>)"
proof -
  have h1: "unlocked_find (storage ex_store_flushed) ''k1''
              (bucket ex_hash (storage ex_store_flushed) ''k1'') False
            = Some \<lparr>sv_key = ''k1'', sv_value = ''v1'', sv_flags = 0, sv_exptime = 0,
                    sv_dirty = False, sv_deleted = False, sv_queued = 100, sv_dirtied = 100\<rparr>"
    by code_simp
  have h2: "\<not> sv_dirty \<lparr>sv_key = ''k1'', sv_value = ''v1'', sv_flags = 0, sv_exptime = 0,
                    sv_dirty = False, sv_deleted = False, sv_queued = 100, sv_dirtied = 100\<rparr>"
    by simp
  from flushOne_clean_slot_discarded [OF h1 h2, of ex_clock "[''k2'']"] h1 show ?thesis
    by simp
qed

text \<open>
  C3, as stated, fails for \<open>del\<close>: after one \<open>set\<close> of the key \<open>k1\<close> on a fresh store
  the slot is dirty and the key is queued once; a \<open>del\<close> of \<open>k1\<close> then appends the key
  a second time.
\<close>

theorem enqueue_counterexample:
  "map_option sv_dirty (find_slot ex_hash (storage ex_store_set1) ''k1'' True) = Some True
   \<and> towrite ex_store_set1 = [''k1'']
   \<and> towrite (snd (ep_del ex_hash ''k1'' [] ex_store_set1)) = [''k1'', ''k1'']"
  by code_simp

text \<open>
  C3, amended. \<open>set\<close> appends the key to the dirty queue exactly when the hash-table
  \<open>set\<close> reports \<open>WAS_CLEAN\<close> or \<open>NOT_FOUND\<close>, that is when the key had no slot or a
  clean one, and leaves the queue alone when the slot was already dirty. \<open>del\<close> appends
  the key exactly when the key had a slot, dirty or not, and leaves the queue alone
  otherwise.
\<close>

theorem enqueue_rule:
  "towrite (snd (set_with storage_set item cb st)) =
     (if fst (storage_set item (storage st)) = WAS_CLEAN
         \<or> fst (storage_set item (storage st)) = NOT_FOUND
      then towrite st @ [item_key item] else towrite st)
   \<and> towrite (snd (ep_set h clk item cb st)) =
     (case find_slot h (storage st) (item_key item) True of
        None \<Rightarrow> towrite st @ [item_key item]
      | Some sv \<Rightarrow> if sv_dirty sv then towrite st else towrite st @ [item_key item])
   \<and> towrite (snd (ep_del h k cb st)) =
     (case find_slot h (storage st) k True of
        None \<Rightarrow> towrite st
      | Some sv \<Rightarrow> towrite st @ [k])"
  by (auto simp: set_with_def ep_set_def ep_del_def ht_set_def ht_del_def find_slot_def
      queueDirty_def ep_current_time_def Let_def split: prod.splits option.splits)

theorem enqueue_rule_witness:
  "towrite (snd (set_with (ht_set ex_hash 100) (ex_item ''k1'' ''v2'') [] ex_store_set1))
     = [''k1'']
   \<and> towrite (snd (ep_set ex_hash ex_clock (ex_item ''k1'' ''v2'') [] ex_store_set1)) = [''k1'']
   \<and> towrite (snd (ep_del ex_hash ''k2'' [] ex_store_set1)) = [''k1'']"
proof -
  have a: "fst (ht_set ex_hash 100 (ex_item ''k1'' ''v2'') (storage ex_store_set1)) = WAS_DIRTY"
    by code_simp
  have b: "find_slot ex_hash (storage ex_store_set1) (item_key (ex_item ''k1'' ''v2'')) True
             = Some (new_slot 100 (ex_item ''k1'' ''v1''))"
    by code_simp
  have c: "find_slot ex_hash (storage ex_store_set1) ''k2'' True = None"
    by code_simp
  have d: "towrite ex_store_set1 = [''k1'']"
    by code_simp
  from enqueue_rule [of "ht_set ex_hash 100" "ex_item ''k1'' ''v2''" "[]" ex_store_set1 ex_hash
      ex_clock "''k2''"]
  show ?thesis
    by (simp add: a b c d new_slot_def)
qed

section \<open>Properties of the flusher's lifecycle\<close>

text \<open>
  C4, as stated, fails: \<open>flusherStopped\<close> writes \<open>STOPPED\<close> without looking at the
  state, so from \<open>RUNNING\<close> the state goes to \<open>STOPPED\<close> directly, which is not a
  step of the cycle Stopped, Running, ShuttingDown, Stopped.
\<close>

theorem flusher_lifecycle_counterexample:
  "flusherState ex_store = RUNNING
   \<and> flusherState (lifecycle_step WorkerExit ex_store) = STOPPED
   \<and> \<not> lifecycle_next (flusherState ex_store)
          (flusherState (lifecycle_step WorkerExit ex_store))"
  by code_simp

text \<open>
  C4, amended. \<open>startFlusher\<close> moves the state to \<open>RUNNING\<close>, and starts a worker
  thread, only when the state is \<open>STOPPED\<close> (and the thread could be created); otherwise
  state and thread count stay as they are. \<open>stopFlusher\<close> moves the state to
  \<open>SHUTTING_DOWN\<close> only from \<open>RUNNING\<close> and is a no-op otherwise. The worker's exit
  path sets \<open>STOPPED\<close> from whatever state it is called in. Every step leaves the state
  as it is, or is a step of the cycle Stopped, Running, ShuttingDown, Stopped, or is the
  worker's exit path called in \<open>RUNNING\<close>; and a state other than \<open>STOPPED\<close> becomes
  \<open>STOPPED\<close> only by the worker's exit path.
\<close>

theorem flusher_lifecycle:
  "flusherState (snd (startFlusher created st)) =
     (if flusherState st = STOPPED \<and> created then RUNNING else flusherState st)
   \<and> threads_started (snd (startFlusher created st)) =
     (if flusherState st = STOPPED \<and> created then threads_started st + 1
      else threads_started st)
   \<and> flusherState (stopFlusher st) =
     (if flusherState st = RUNNING then SHUTTING_DOWN else flusherState st)
   \<and> flusherState (flusherStopped st) = STOPPED
   \<and> (flusherState (lifecycle_step e st) = flusherState st
        \<or> lifecycle_next (flusherState st) (flusherState (lifecycle_step e st))
        \<or> (e = WorkerExit \<and> flusherState st = RUNNING
            \<and> flusherState (lifecycle_step e st) = STOPPED))
   \<and> (flusherState (lifecycle_step e st) = STOPPED \<and> flusherState st \<noteq> STOPPED
        \<longrightarrow> e = WorkerExit)"
  by (cases e; cases "flusherState st")
     (auto simp: startFlusher_def stopFlusher_def flusherStopped_def)

theorem flusher_lifecycle_witness:
  "flusherState ex_store = RUNNING
   \<and> flusherState (lifecycle_step StopFlusher ex_store) = SHUTTING_DOWN
   \<and> lifecycle_next (flusherState ex_store) (flusherState (lifecycle_step StopFlusher ex_store))
   \<and> flusherState (lifecycle_step WorkerExit (lifecycle_step StopFlusher ex_store)) = STOPPED"
proof -
  have a: "flusherState ex_store = RUNNING"
    by code_simp
  have b: "flusherState (lifecycle_step StopFlusher ex_store) = SHUTTING_DOWN"
    by code_simp
  from flusher_lifecycle [of True ex_store StopFlusher] a b show ?thesis
    by (simp add: flusherStopped_def)
qed

section \<open>Properties of the task comparators\<close>

text \<open>
  C5, as stated, fails: of two tasks of equal priority, the ordering the specification
  words puts the one with the earlier due date first, but the ready queue's comparator
  \<open>CompareByPriority\<close> does not read the due date and puts the one with the lower id
  first. Here \<open>ex_task_b\<close> is due earlier and \<open>ex_task_a\<close> is older.
\<close>

theorem ready_order_counterexample:
  "spec_ready_before ex_task_b ex_task_a
   \<and> \<not> ready_before ex_task_b ex_task_a
   \<and> ready_before ex_task_a ex_task_b"
  by (simp add: spec_ready_before_def ready_before_def CompareByPriority_def less_tv_def
      ex_task_a_def ex_task_b_def)

text \<open>
  C5, amended. The ready queue's ordering ranks two tasks first by priority (higher
  first) and, within equal priority, by lower task id; it is irreflexive, asymmetric and
  transitive, it decides every pair of tasks with different ids, and it does not depend
  on the due dates. The due date is compared by a comparator of its own,
  \<open>CompareByDueDate\<close>, which reads nothing but the two wake times.
\<close>

theorem ready_order:
  "(ready_before a b \<longleftrightarrow>
      priority b < priority a \<or> (priority a = priority b \<and> taskId a < taskId b))
   \<and> \<not> ready_before a a
   \<and> \<not> (ready_before a b \<and> ready_before b a)
   \<and> (ready_before a b \<and> ready_before b c \<longrightarrow> ready_before a c)
   \<and> (taskId a \<noteq> taskId b \<longrightarrow> ready_before a b \<or> ready_before b a)
   \<and> ready_before (a\<lparr>waketime := w\<rparr>) (b\<lparr>waketime := w'\<rparr>) = ready_before a b
   \<and> (CompareByDueDate a b \<longleftrightarrow> less_tv (waketime b) (waketime a))"
  by (auto simp: ready_before_def CompareByPriority_def CompareByDueDate_def split: if_splits)

theorem ready_order_witness:
  "taskId ex_task_a \<noteq> taskId ex_task_b
   \<and> ready_before ex_task_a ex_task_b
   \<and> \<not> ready_before ex_task_b ex_task_a
   \<and> ready_before (ex_task_a\<lparr>waketime := waketime ex_task_b\<rparr>)
        (ex_task_b\<lparr>waketime := waketime ex_task_a\<rparr>)"
proof -
  have a: "priority ex_task_a = priority ex_task_b" "taskId ex_task_a < taskId ex_task_b"
    by (simp_all add: ex_task_a_def ex_task_b_def)
  from ready_order [of ex_task_a ex_task_b ex_task_a "waketime ex_task_b" "waketime ex_task_a"] a
  show ?thesis
    by auto
qed

section \<open>Properties of the flush cycle\<close>

subsection \<open>A flush cycle that runs to its end\<close>






lemma agree_ages [simp]:
  "agree (a\<lparr>dirtyAge := x\<rparr>) b = agree a b"
  "agree (a\<lparr>dataAge := x\<rparr>) b = agree a b"
  "agree (a\<lparr>dirtyAgeHighWat := x\<rparr>) b = agree a b"
  "agree (a\<lparr>dataAgeHighWat := x\<rparr>) b = agree a b"
  "agree (a\<lparr>flushDuration := x\<rparr>) b = agree a b"
  "agree (a\<lparr>flushDurationHighWat := x\<rparr>) b = agree a b"
  "agree (a\<lparr>commit_time := x\<rparr>) b = agree a b"
  "agree (a\<lparr>clock_reads := n\<rparr>) b = agree a b"
  by (simp_all add: agree_def)

lemma agree_refl [simp]: "agree a a"
  by (simp add: agree_def)






















text \<open>
  The bound on \<open>txnSize\<close> cannot be dropped: with a \<open>txnSize\<close> that is not positive,
  each round of the \<open>while\<close> loop opens and commits an empty transaction and pops
  nothing, so a flush cycle on a non-empty queue does not return.
\<close>

lemma flush_loop_never_returns:
  assumes "fuse (underlying st) = None" and "txnSize st \<le> 0" and "q \<noteq> []"
  shows "flush_loop h clk q st = None"
proof (rule ccontr)
  assume "flush_loop h clk q st \<noteq> None"
  then obtain y where y: "flush_loop h clk q st = Some y"
    by auto
  have "fuse (underlying st) = None \<and> txnSize st \<le> 0 \<and> q \<noteq> [] \<longrightarrow> False"
  proof (rule flush_loop.raw_induct
      [where P = "\<lambda>h clk q st y. fuse (underlying st) = None \<and> txnSize st \<le> 0 \<and> q \<noteq> [] \<longrightarrow> False",
        OF _ y])
    fix flush_loop :: "hashfn \<Rightarrow> clock \<Rightarrow> string list \<Rightarrow> EPStore \<Rightarrow> (outcome \<times> EPStore) option"
      and h clk q st ha
    assume IH: "\<And>h clk q st y. flush_loop h clk q st = Some y \<Longrightarrow>
        fuse (underlying st) = None \<and> txnSize st \<le> 0 \<and> q \<noteq> [] \<longrightarrow> False"
      and body: "(if q = [] then Some (Returned, st)
        else case flushSome h clk q st of
             (Returned, q', st') \<Rightarrow> flush_loop h clk q' st'
             | (Thrown, q', st') \<Rightarrow> Some (Thrown, st')
             | (Aborted, q', st') \<Rightarrow> Some (Aborted, st')
             | (Undefined, q', st') \<Rightarrow> Some (Undefined, st')) =
       Some ha"
    show "fuse (underlying st) = None \<and> txnSize st \<le> 0 \<and> q \<noteq> [] \<longrightarrow> False"
    proof
      assume a: "fuse (underlying st) = None \<and> txnSize st \<le> 0 \<and> q \<noteq> []"
      have l: "\<And>s. txnSize s = txnSize st \<Longrightarrow> flushSome_loop h clk 0 q s = (Returned, q, s)"
        using a by (subst flushSome_loop.simps) simp
      obtain st1 where some: "flushSome h clk q st = (Returned, q, st1)"
        and p: "fuse (underlying st1) = None" "txnSize st1 = txnSize st"
        using a
        by (simp add: flushSome_def underlying_call_def kv_call_def l ep_current_time_def)
      with body a have "flush_loop h clk q st1 = Some ha"
        by simp
      from IH [OF this] a p show False
        by simp
    qed
  qed
  with assms show False
    by simp
qed

lemma flush_never_returns:
  assumes "fuse (underlying st) = None" and "txnSize st \<le> 0" and "towrite st \<noteq> []"
  shows "flush h clk shouldWait st = None"
  using assms flush_loop_never_returns [of _ "towrite st" h clk]
  by (simp add: flush_def Let_def initQueue_def ep_current_time_def)

section \<open>Mutations of one key between two flush cycles\<close>





lemma markClean_size [simp]: "ht_size (markClean ht b k) = ht_size ht"
  by (simp add: markClean_def)

lemma bucket_markClean [simp]: "bucket h (markClean ht b k) k' = bucket h ht k'"
  by (simp add: bucket_def)






subsection \<open>The assertions after a mutation\<close>












section \<open>A flush cycle during which the persistence layer throws\<close>













section \<open>Properties of the hash table\<close>

subsection \<open>Chains with distinct keys\<close>

lemma update_slot_absent:
  "k \<notin> sv_key ` set c \<Longrightarrow> update_slot k f c = c"
  by (induction c) (auto simp: update_slot_def)

lemma filter_key_absent:
  "k \<notin> sv_key ` set c \<Longrightarrow> filter (\<lambda>u. sv_key u \<noteq> k) c = c"
  by (induction c) auto

lemma find_key_absent:
  "List.find (\<lambda>v. sv_key v = k) c = None \<longleftrightarrow> k \<notin> sv_key ` set c"
  by (induction c) auto

lemma find_key_Some:
  "List.find (\<lambda>v. sv_key v = k) c = Some v \<Longrightarrow> v \<in> set c \<and> sv_key v = k"
  by (induction c) (auto split: if_splits)

lemma find_key_unique:
  "distinct (map sv_key c) \<Longrightarrow> v \<in> set c \<Longrightarrow>
   List.find (\<lambda>u. sv_key u = sv_key v) c = Some v"
  by (induction c) (auto simp: image_iff)

lemma keys_update_slot:
  "(\<And>v. sv_key (f v) = sv_key v) \<Longrightarrow> map sv_key (update_slot k f c) = map sv_key c"
  by (induction c) (auto simp: update_slot_def)

lemma count_update_slot:
  assumes "distinct (map sv_key c)" and "List.find (\<lambda>v. sv_key v = k) c = Some v"
    and "\<And>v. sv_key (f v) = sv_key v"
  shows "length (filter P (update_slot k f c)) + (if P v then 1 else 0)
       = length (filter P c) + (if P (f v) then 1 else 0)"
  using assms(1,2)
proof (induction c)
  case Nil
  then show ?case by simp
next
  case (Cons a c)
  show ?case
  proof (cases "sv_key a = k")
    case True
    with Cons.prems have "k \<notin> sv_key ` set c" "v = a"
      by auto
    with True show ?thesis
      using update_slot_absent [of k c f] by (simp add: update_slot_def)
  next
    case False
    with Cons show ?thesis
      by (auto simp: update_slot_def)
  qed
qed

lemma count_filter_key:
  assumes "distinct (map sv_key c)" and "List.find (\<lambda>v. sv_key v = k) c = Some v"
  shows "length (filter P (filter (\<lambda>u. sv_key u \<noteq> k) c)) + (if P v then 1 else 0)
       = length (filter P c)"
  using assms
proof (induction c)
  case Nil
  then show ?case by simp
next
  case (Cons a c)
  show ?case
  proof (cases "sv_key a = k")
    case True
    with Cons.prems have "k \<notin> sv_key ` set c" "v = a"
      by auto
    with True show ?thesis
      using filter_key_absent [of k c] by simp
  next
    case False
    with Cons show ?thesis
      by auto
  qed
qed

subsection \<open>Counting over the bucket array\<close>

lemma count_concat_update:
  "b < length xss \<Longrightarrow>
   length (filter P (concat (xss[b := c]))) + length (filter P (xss ! b))
     = length (filter P (concat xss)) + length (filter P c)"
proof (induction xss arbitrary: b)
  case Nil
  then show ?case by simp
next
  case (Cons xs xss)
  then show ?case
    by (cases b) auto
qed

lemma length_concat_update:
  "b < length xss \<Longrightarrow>
   length (concat (xss[b := c])) + length (xss ! b) = length (concat xss) + length c"
  using count_concat_update [of b xss "\<lambda>_. True" c] by simp

lemma visit_chain_Counter:
  "visit_chain Counter_visit c a =
     (True, \<lparr>count = count a + length (filter (\<lambda>v. \<not> sv_deleted v) c),
             deleted = deleted a + length (filter sv_deleted c)\<rparr>)"
  by (induction c arbitrary: a) (auto simp: Counter_visit_def)

lemma visit_buckets_Counter:
  "visit_buckets Counter_visit xss a =
     \<lparr>count = count a + length (filter (\<lambda>v. \<not> sv_deleted v) (concat xss)),
      deleted = deleted a + length (filter sv_deleted (concat xss))\<rparr>"
  by (induction xss arbitrary: a) (auto simp: visit_chain_Counter)

lemma count_items_inv:
  assumes "ht_inv h ht"
  shows "count_items ht = (True, length (filter (\<lambda>v. \<not> sv_deleted v) (concat (ht_values ht))))"
    and "deleted (visit Counter_visit ht \<lparr>count = 0, deleted = 0\<rparr>) = getNumDeletedItems ht"
  using assms sum_length_filter_compl [of sv_deleted "concat (ht_values ht)"]
  by (auto simp: count_items_def visit_def visit_buckets_Counter getNumItems_def ht_inv_def
      getNumDeletedItems_def Let_def)


subsection \<open>The invariant is established and kept\<close>

lemma ht_inv_new: "0 < N \<Longrightarrow> ht_inv h (new_HashTable N L)"
  by (simp add: ht_inv_def ht_wf_def new_HashTable_def)

lemma ht_inv_replace_chain:
  assumes inv: "ht_inv h ht" and b: "b < length (ht_values ht)"
    and size: "ht_size ht' = ht_size ht"
    and vals: "ht_values ht' = (ht_values ht)[b := c]"
    and place: "\<forall>v \<in> set c. h (sv_key v) mod ht_size ht = b"
    and dist: "distinct (map sv_key c)"
    and items: "numItems ht' + length (ht_values ht ! b) = numItems ht + length c"
    and dels: "numDeletedItems ht' + length (filter sv_deleted (ht_values ht ! b))
                 = numDeletedItems ht + length (filter sv_deleted c)"
  shows "ht_inv h ht'"
proof -
  have wf: "ht_wf ht'"
    using inv size vals by (simp add: ht_inv_def ht_wf_def)
  have chains: "\<forall>b' \<in> {..<length (ht_values ht')}.
      (\<forall>v \<in> set (ht_values ht' ! b'). h (sv_key v) mod ht_size ht' = b')
      \<and> distinct (map sv_key (ht_values ht' ! b'))"
    using inv b size vals place dist by (auto simp: ht_inv_def nth_list_update)
  have n: "numItems ht' = length (concat (ht_values ht'))"
    using inv items length_concat_update [OF b, of c] vals by (simp add: ht_inv_def)
  have d: "numDeletedItems ht' = length (filter sv_deleted (concat (ht_values ht')))"
    using inv dels count_concat_update [OF b, of sv_deleted c] vals by (simp add: ht_inv_def)
  from wf chains n d show ?thesis
    by (simp add: ht_inv_def)
qed

lemma ht_inv_chain:
  assumes "ht_inv h ht" and "b < length (ht_values ht)"
  shows "chain ht b = ht_values ht ! b"
    and "\<forall>v \<in> set (ht_values ht ! b). h (sv_key v) mod ht_size ht = b"
    and "distinct (map sv_key (ht_values ht ! b))"
  using assms by (auto simp: ht_inv_def chain_def)

lemma ht_inv_wf: "ht_inv h ht \<Longrightarrow> ht_wf ht"
  by (simp add: ht_inv_def)

lemma ht_inv_set:
  assumes inv: "ht_inv h ht"
  shows "ht_inv h (snd (ht_set h now i ht))"
proof -
  let ?k = "item_key i"
  let ?b = "bucket h ht ?k"
  let ?c = "ht_values ht ! ?b"
  have b: "?b < length (ht_values ht)"
    using inv by (simp add: bucket_in_range ht_inv_wf)
  note ch = ht_inv_chain [OF inv b]
  show ?thesis
  proof (cases "List.find (\<lambda>v. sv_key v = ?k) ?c")
    case None
    then have absent: "?k \<notin> sv_key ` set ?c"
      by (simp add: find_key_absent)
    have res: "snd (ht_set h now i ht)
        = (set_chain ht ?b (new_slot now i # ?c))\<lparr>numItems := numItems ht + 1\<rparr>"
      using None ch(1) by (simp add: ht_set_def unlocked_find_def Let_def)
    show ?thesis
      unfolding res
    proof (rule ht_inv_replace_chain [OF inv b])
      show "\<forall>v \<in> set (new_slot now i # ?c). h (sv_key v) mod ht_size ht = ?b"
        using ch(2) by (simp add: new_slot_def bucket_def)
      show "distinct (map sv_key (new_slot now i # ?c))"
        using ch(3) absent by (simp add: new_slot_def)
    qed (simp_all add: set_chain_def new_slot_def)
  next
    case (Some v)
    have key: "\<And>u. sv_key (setValue now i u) = sv_key u"
      by (simp add: setValue_def)
    let ?c' = "update_slot ?k (setValue now i) ?c"
    have res: "snd (ht_set h now i ht)
        = (set_chain ht ?b ?c')\<lparr>numDeletedItems :=
             (if sv_deleted v then numDeletedItems ht - 1 else numDeletedItems ht)\<rparr>"
      using Some ch(1) by (simp add: ht_set_def unlocked_find_def Let_def)
    have cnt: "length (filter sv_deleted ?c') + (if sv_deleted v then 1 else 0)
        = length (filter sv_deleted ?c)"
    proof -
      have "\<not> sv_deleted (setValue now i v)"
        by (simp add: setValue_def)
      with count_update_slot [OF ch(3) Some key, of sv_deleted] show ?thesis
        by simp
    qed
    have total: "length (filter sv_deleted ?c) \<le> numDeletedItems ht"
      using inv count_concat_update [OF b, of sv_deleted "[]"] by (simp add: ht_inv_def)
    show ?thesis
      unfolding res
    proof (rule ht_inv_replace_chain [OF inv b])
      show "\<forall>u \<in> set ?c'. h (sv_key u) mod ht_size ht = ?b"
        using ch(2) key by (auto simp: update_slot_def)
      show "distinct (map sv_key ?c')"
        using ch(3) by (simp add: keys_update_slot [OF key])
      show "numItems ((set_chain ht ?b ?c')\<lparr>numDeletedItems :=
             (if sv_deleted v then numDeletedItems ht - 1 else numDeletedItems ht)\<rparr>)
            + length ?c = numItems ht + length ?c'"
        by (simp add: update_slot_def)
      show "numDeletedItems ((set_chain ht ?b ?c')\<lparr>numDeletedItems :=
             (if sv_deleted v then numDeletedItems ht - 1 else numDeletedItems ht)\<rparr>)
            + length (filter sv_deleted ?c)
            = numDeletedItems ht + length (filter sv_deleted ?c')"
        using cnt total by (auto split: if_splits)
    qed (simp_all add: set_chain_def)
  qed
qed

lemma ht_inv_unlocked_del:
  assumes inv: "ht_inv h ht"
  shows "ht_inv h (unlocked_del ht (bucket h ht k) k)"
proof -
  let ?b = "bucket h ht k"
  let ?c = "ht_values ht ! ?b"
  have b: "?b < length (ht_values ht)"
    using inv by (simp add: bucket_in_range ht_inv_wf)
  note ch = ht_inv_chain [OF inv b]
  show ?thesis
  proof (cases "List.find (\<lambda>v. sv_key v = k) ?c")
    case None
    then show ?thesis
      using inv ch(1) by (simp add: unlocked_del_def unlocked_find_def)
  next
    case (Some v)
    let ?c' = "filter (\<lambda>u. sv_key u \<noteq> k) ?c"
    let ?ht' = "(set_chain ht ?b ?c')\<lparr>numItems := numItems ht - 1,
        numDeletedItems := (if sv_deleted v then numDeletedItems ht - 1 else numDeletedItems ht)\<rparr>"
    have res: "unlocked_del ht ?b k = ?ht'"
      using Some ch(1) by (simp add: unlocked_del_def unlocked_find_def)
    have len: "length ?c' + 1 = length ?c"
      using count_filter_key [OF ch(3) Some, of "\<lambda>_. True"] by simp
    have cnt: "length (filter sv_deleted ?c') + (if sv_deleted v then 1 else 0)
        = length (filter sv_deleted ?c)"
      using count_filter_key [OF ch(3) Some, of sv_deleted] by simp
    have total: "length ?c \<le> numItems ht" "length (filter sv_deleted ?c) \<le> numDeletedItems ht"
      using inv length_concat_update [OF b, of "[]"] count_concat_update [OF b, of sv_deleted "[]"]
      by (simp_all add: ht_inv_def)
    show ?thesis
      unfolding res
    proof (rule ht_inv_replace_chain [OF inv b])
      show "\<forall>u \<in> set ?c'. h (sv_key u) mod ht_size ht = ?b"
        using ch(2) by auto
      show "distinct (map sv_key ?c')"
        using ch(3) by (simp add: distinct_map_filter)
      show "numItems ?ht' + length ?c = numItems ht + length ?c'"
        using len total by simp
      show "numDeletedItems ?ht' + length (filter sv_deleted ?c)
            = numDeletedItems ht + length (filter sv_deleted ?c')"
        using cnt total by (auto split: if_splits)
    qed (simp_all add: set_chain_def)
  qed
qed

lemma ht_inv_del:
  "ht_inv h ht \<Longrightarrow> ht_inv h (snd (ht_del h k ht))"
  by (simp add: ht_del_def Let_def ht_inv_unlocked_del split: option.splits)

lemma ht_inv_softDelete:
  assumes inv: "ht_inv h ht"
  shows "ht_inv h (unlocked_softDelete ht (bucket h ht k) k)"
proof -
  let ?b = "bucket h ht k"
  let ?c = "ht_values ht ! ?b"
  let ?f = "\<lambda>u. u\<lparr>sv_dirty := True, sv_deleted := True\<rparr>"
  have b: "?b < length (ht_values ht)"
    using inv by (simp add: bucket_in_range ht_inv_wf)
  note ch = ht_inv_chain [OF inv b]
  show ?thesis
  proof (cases "unlocked_find ht k ?b False")
    case None
    then show ?thesis
      using inv by (simp add: unlocked_softDelete_def)
  next
    case (Some v)
    then have found: "List.find (\<lambda>v. sv_key v = k) ?c = Some v" and live: "\<not> sv_deleted v"
      using ch(1) by (auto simp: unlocked_find_def split: option.splits if_splits)
    have key: "\<And>u. sv_key (?f u) = sv_key u"
      by simp
    let ?c' = "update_slot k ?f ?c"
    let ?ht' = "(set_chain ht ?b ?c')\<lparr>numDeletedItems := numDeletedItems ht + 1\<rparr>"
    have res: "unlocked_softDelete ht ?b k = ?ht'"
      using Some ch(1) by (simp add: unlocked_softDelete_def)
    have cnt: "length (filter sv_deleted ?c') = length (filter sv_deleted ?c) + 1"
      using count_update_slot [OF ch(3) found key, of sv_deleted] live by simp
    show ?thesis
      unfolding res
    proof (rule ht_inv_replace_chain [OF inv b])
      show "\<forall>u \<in> set ?c'. h (sv_key u) mod ht_size ht = ?b"
        using ch(2) by (auto simp: update_slot_def)
      show "distinct (map sv_key ?c')"
        using ch(3) by (simp add: keys_update_slot [OF key])
      show "numItems ?ht' + length ?c = numItems ht + length ?c'"
        by (simp add: update_slot_def)
      show "numDeletedItems ?ht' + length (filter sv_deleted ?c)
            = numDeletedItems ht + length (filter sv_deleted ?c')"
        using cnt by simp
    qed (simp_all add: set_chain_def)
  qed
qed

lemma ht_inv_clear: "ht_inv h ht \<Longrightarrow> ht_inv h (clear ht)"
  by (simp add: ht_inv_def ht_wf_def clear_def)

subsection \<open>Resizing\<close>

lemma rehash_length [simp]: "length (fold (rehash_slot h n) xs vals) = length vals"
  by (induction xs arbitrary: vals) (simp_all add: rehash_slot_def)

lemma rehash_nth:
  assumes "length vals = n" and "b < n"
  shows "fold (rehash_slot h n) xs vals ! b
       = rev (filter (\<lambda>v. h (sv_key v) mod n = b) xs) @ vals ! b"
  using assms(1)
proof (induction xs arbitrary: vals)
  case Nil
  show ?case by simp
next
  case (Cons x xs)
  let ?vals = "rehash_slot h n x vals"
  have l: "length ?vals = n"
    using Cons.prems by (simp add: rehash_slot_def)
  have i: "h (sv_key x) mod n < length vals"
    using Cons.prems assms(2) by simp
  have "?vals ! b = (if h (sv_key x) mod n = b then x # vals ! b else vals ! b)"
    using i assms(2) Cons.prems by (auto simp: rehash_slot_def nth_list_update)
  with Cons.IH [OF l] show ?case
    by simp
qed

lemma rehash_count:
  assumes "length vals = n" and "0 < n"
  shows "length (filter P (concat (fold (rehash_slot h n) xs vals)))
       = length (filter P xs) + length (filter P (concat vals))"
  using assms(1)
proof (induction xs arbitrary: vals)
  case Nil
  show ?case by simp
next
  case (Cons x xs)
  let ?i = "h (sv_key x) mod n"
  let ?vals = "rehash_slot h n x vals"
  have l: "length ?vals = n"
    using Cons.prems by (simp add: rehash_slot_def)
  have i: "?i < length vals"
    using Cons.prems assms(2) by simp
  have "length (filter P (concat ?vals)) + length (filter P (vals ! ?i))
      = length (filter P (concat vals)) + length (filter P (x # vals ! ?i))"
    unfolding rehash_slot_def by (rule count_concat_update [OF i])
  then have "length (filter P (concat ?vals))
      = length (filter P (concat vals)) + length (filter P [x])"
    by (cases "P x") simp_all
  with Cons.IH [OF l] show ?case
    by simp
qed

lemma distinct_concat_placed:
  "(\<forall>i < length kss. distinct (kss ! i) \<and> (\<forall>k \<in> set (kss ! i). g k = i + off))
   \<Longrightarrow> distinct (concat kss)"
proof (induction kss arbitrary: off)
  case Nil
  show ?case by simp
next
  case (Cons ks kss)
  have head: "distinct ks" "\<forall>k \<in> set ks. g k = off"
    using Cons.prems [rule_format, of 0] by simp_all
  have tail: "\<forall>i < length kss. distinct (kss ! i) \<and> (\<forall>k \<in> set (kss ! i). g k = i + Suc off)"
  proof (intro allI impI)
    fix i assume "i < length kss"
    then have "Suc i < length (ks # kss)"
      by simp
    from Cons.prems [rule_format, OF this]
    show "distinct (kss ! i) \<and> (\<forall>k \<in> set (kss ! i). g k = i + Suc off)"
      by simp
  qed
  have "distinct (concat kss)"
    using tail by (rule Cons.IH)
  moreover have "set ks \<inter> set (concat kss) = {}"
  proof (rule ccontr)
    assume "set ks \<inter> set (concat kss) \<noteq> {}"
    then obtain k where k: "k \<in> set ks" "k \<in> set (concat kss)"
      by auto
    then obtain ys where "ys \<in> set kss" "k \<in> set ys"
      by auto
    then obtain i where "i < length kss" "k \<in> set (kss ! i)"
      by (metis in_set_conv_nth)
    with tail have "g k = i + Suc off"
      by simp
    with head k show False
      by simp
  qed
  ultimately show ?case
    using head by simp
qed

lemma ht_inv_distinct_keys:
  assumes "ht_inv h ht"
  shows "distinct (map sv_key (concat (ht_values ht)))"
proof -
  have "distinct (concat (map (map sv_key) (ht_values ht)))"
    using assms
    by (intro distinct_concat_placed [where g = "\<lambda>k. h k mod ht_size ht" and off = 0])
       (auto simp: ht_inv_def)
  then show ?thesis
    by (simp add: map_concat)
qed

lemma ht_inv_member:
  assumes "ht_inv h ht"
  shows "v \<in> set (chain ht (bucket h ht k)) \<and> sv_key v = k
     \<longleftrightarrow> v \<in> set (concat (ht_values ht)) \<and> sv_key v = k"
proof
  assume l: "v \<in> set (chain ht (bucket h ht k)) \<and> sv_key v = k"
  have b: "bucket h ht k < length (ht_values ht)"
    using assms by (simp add: bucket_in_range ht_inv_wf)
  with l show "v \<in> set (concat (ht_values ht)) \<and> sv_key v = k"
    by (auto simp: chain_def)
next
  assume r: "v \<in> set (concat (ht_values ht)) \<and> sv_key v = k"
  then obtain c where "c \<in> set (ht_values ht)" "v \<in> set c"
    by auto
  then obtain b where b: "b < length (ht_values ht)" "v \<in> set (ht_values ht ! b)"
    by (metis in_set_conv_nth)
  with assms have "h (sv_key v) mod ht_size ht = b"
    by (auto simp: ht_inv_def)
  with r b show "v \<in> set (chain ht (bucket h ht k)) \<and> sv_key v = k"
    by (auto simp: chain_def bucket_def)
qed

lemma find_by_members:
  assumes "distinct (map sv_key xs)" and "distinct (map sv_key ys)"
    and "\<And>v. v \<in> set xs \<and> sv_key v = k \<longleftrightarrow> v \<in> set ys \<and> sv_key v = k"
  shows "List.find (\<lambda>v. sv_key v = k) xs = List.find (\<lambda>v. sv_key v = k) ys"
proof (cases "List.find (\<lambda>v. sv_key v = k) xs")
  case None
  then have "k \<notin> sv_key ` set xs"
    by (simp add: find_key_absent)
  with assms(3) have "k \<notin> sv_key ` set ys"
    by auto
  then have "List.find (\<lambda>v. sv_key v = k) ys = None"
    by (simp add: find_key_absent)
  with None show ?thesis
    by simp
next
  case (Some v)
  then have "v \<in> set xs \<and> sv_key v = k"
    by (rule find_key_Some)
  with assms(3) have "v \<in> set ys" "sv_key v = k"
    by auto
  with find_key_unique [OF assms(2), of v] Some show ?thesis
    by simp
qed

lemma ht_inv_find_global:
  assumes "ht_inv h ht"
  shows "List.find (\<lambda>v. sv_key v = k) (chain ht (bucket h ht k))
       = List.find (\<lambda>v. sv_key v = k) (concat (ht_values ht))"
proof (rule find_by_members)
  have b: "bucket h ht k < length (ht_values ht)"
    using assms by (simp add: bucket_in_range ht_inv_wf)
  show "distinct (map sv_key (chain ht (bucket h ht k)))"
    using ht_inv_chain [OF assms b] by simp
  show "distinct (map sv_key (concat (ht_values ht)))"
    using assms by (rule ht_inv_distinct_keys)
  show "\<And>v. v \<in> set (chain ht (bucket h ht k)) \<and> sv_key v = k
      \<longleftrightarrow> v \<in> set (concat (ht_values ht)) \<and> sv_key v = k"
    using assms by (rule ht_inv_member)
qed

lemma mem_iff_count: "v \<in> set xs \<longleftrightarrow> 0 < length (filter (\<lambda>u. u = v) xs)"
  by (induction xs) auto

lemma ht_inv_rehash:
  assumes inv: "ht_inv h ht" and n: "0 < n"
  shows "ht_inv h (ht\<lparr>ht_size := n,
           ht_values := fold (rehash_slot h n) (concat (ht_values ht)) (replicate n [])\<rparr>)"
    (is "ht_inv h ?ht'")
proof -
  let ?xs = "concat (ht_values ht)"
  have nth: "\<And>b. b < n \<Longrightarrow> ht_values ?ht' ! b = rev (filter (\<lambda>v. h (sv_key v) mod n = b) ?xs)"
    using rehash_nth [of "replicate n []" n _ h ?xs] by simp
  have d: "distinct (map sv_key ?xs)"
    using inv by (rule ht_inv_distinct_keys)
  have wf: "ht_wf ?ht'"
    using n by (simp add: ht_wf_def)
  have chains: "\<forall>b \<in> {..<length (ht_values ?ht')}.
      (\<forall>v \<in> set (ht_values ?ht' ! b). h (sv_key v) mod ht_size ?ht' = b)
      \<and> distinct (map sv_key (ht_values ?ht' ! b))"
  proof
    fix b assume "b \<in> {..<length (ht_values ?ht')}"
    then have b: "b < n" by simp
    show "(\<forall>v \<in> set (ht_values ?ht' ! b). h (sv_key v) mod ht_size ?ht' = b)
      \<and> distinct (map sv_key (ht_values ?ht' ! b))"
      unfolding nth [OF b] using d by (simp add: distinct_map_filter rev_map [symmetric])
  qed
  have cnt: "\<And>P. length (filter P (concat (ht_values ?ht'))) = length (filter P ?xs)"
    using rehash_count [of "replicate n []" n _ h ?xs] n by simp
  have items: "numItems ?ht' = length (concat (ht_values ?ht'))"
    using inv cnt [of "\<lambda>_. True"] by (simp add: ht_inv_def)
  have dels: "numDeletedItems ?ht' = length (filter sv_deleted (concat (ht_values ?ht')))"
    using inv cnt [of sv_deleted] by (simp add: ht_inv_def)
  show ?thesis
    unfolding ht_inv_def by (intro conjI wf chains items dels)
qed

lemma ht_inv_resize: "ht_inv h ht \<Longrightarrow> ht_inv h (resize h auto n ht)"
  by (auto simp: resize_def Let_def ht_inv_rehash)

lemma find_rehash:
  assumes inv: "ht_inv h ht" and n: "0 < n"
  shows "find_slot h (ht\<lparr>ht_size := n,
           ht_values := fold (rehash_slot h n) (concat (ht_values ht)) (replicate n [])\<rparr>) k wd
       = find_slot h ht k wd"
    (is "find_slot h ?ht' k wd = _")
proof -
  have inv': "ht_inv h ?ht'"
    using inv n by (rule ht_inv_rehash)
  have "set (concat (ht_values ?ht')) = set (concat (ht_values ht))"
  proof -
    have "\<And>v. length (filter (\<lambda>u. u = v) (concat (ht_values ?ht')))
        = length (filter (\<lambda>u. u = v) (concat (ht_values ht)))"
      using rehash_count [of "replicate n []" n _ h "concat (ht_values ht)"] n by simp
    then have "\<And>v. v \<in> set (concat (ht_values ?ht')) \<longleftrightarrow> v \<in> set (concat (ht_values ht))"
      by (simp only: mem_iff_count)
    then show ?thesis
      by blast
  qed
  then have "List.find (\<lambda>v. sv_key v = k) (concat (ht_values ?ht'))
      = List.find (\<lambda>v. sv_key v = k) (concat (ht_values ht))"
    using ht_inv_distinct_keys [OF inv] ht_inv_distinct_keys [OF inv']
    by (intro find_by_members) auto
  then have "List.find (\<lambda>v. sv_key v = k) (chain ?ht' (bucket h ?ht' k))
      = List.find (\<lambda>v. sv_key v = k) (chain ht (bucket h ht k))"
    using ht_inv_find_global [OF inv] ht_inv_find_global [OF inv'] by simp
  then show ?thesis
    by (simp add: find_slot_def unlocked_find_def)
qed

lemma find_resize:
  "ht_inv h ht \<Longrightarrow> find_slot h (resize h auto n ht) k wd = find_slot h ht k wd"
  by (auto simp: resize_def Let_def find_rehash)

lemma ht_inv_apply_op: "ht_inv h ht \<Longrightarrow> ht_inv h (apply_op h auto op ht)"
  by (cases op) (simp_all add: ht_inv_set ht_inv_del ht_inv_softDelete ht_inv_resize ht_inv_clear)

lemma ht_inv_apply_ops: "ht_inv h ht \<Longrightarrow> ht_inv h (apply_ops h auto os ht)"
  unfolding apply_ops_def by (induction os arbitrary: ht) (simp_all add: ht_inv_apply_op)

subsection \<open>Item count and resize\<close>

text \<open>
  C7. For every sequence of hash-table operations (\<open>set\<close>, \<open>del\<close>, soft delete,
  \<open>resize\<close>, \<open>clear\<close>) applied to a fresh table with \<open>N\<close> buckets (\<open>N\<close> positive)
  and \<open>L\<close> locks, \<open>getNumItems\<close> equals the number of live slots plus the number of
  tombstoned slots that a full visit of the table counts, so the comparison made by the
  test helper \<open>count\<close> holds; the two counts are those of the slots in the chains.
\<close>

theorem numItems_counts_slots:
  assumes "0 < N"
  shows "let ht = apply_ops h auto os (new_HashTable N L);
             c = visit Counter_visit ht \<lparr>count = 0, deleted = 0\<rparr>
         in getNumItems ht = count c + deleted c
            \<and> count c = length (filter (\<lambda>v. \<not> sv_deleted v) (concat (ht_values ht)))
            \<and> deleted c = length (filter sv_deleted (concat (ht_values ht)))
            \<and> fst (count_items ht)"
proof -
  have inv: "ht_inv h (apply_ops h auto os (new_HashTable N L))"
    using assms by (intro ht_inv_apply_ops ht_inv_new)
  show ?thesis
    using count_items_inv [OF inv]
    by (simp add: Let_def count_items_def visit_def visit_buckets_Counter)
qed

theorem numItems_counts_slots_witness:
  "(0::nat) < 5
   \<and> (let ht = apply_ops ex_hash (\<lambda>n. 769) ex_ops (new_HashTable 5 3);
           c = visit Counter_visit ht \<lparr>count = 0, deleted = 0\<rparr>
       in getNumItems ht = count c + deleted c
          \<and> count c = length (filter (\<lambda>v. \<not> sv_deleted v) (concat (ht_values ht)))
          \<and> deleted c = length (filter sv_deleted (concat (ht_values ht)))
          \<and> fst (count_items ht))
   \<and> getNumItems ex_table = 4
   \<and> visit Counter_visit ex_table \<lparr>count = 0, deleted = 0\<rparr> = \<lparr>count = 2, deleted = 2\<rparr>"
proof -
  have p: "(0::nat) < 5"
    by simp
  have a: "getNumItems ex_table = 4"
    by code_simp
  have b: "visit Counter_visit ex_table \<lparr>count = 0, deleted = 0\<rparr> = \<lparr>count = 2, deleted = 2\<rparr>"
    by code_simp
  from numItems_counts_slots [OF p, of ex_hash "\<lambda>n. 769" ex_ops 3] a b show ?thesis
    by simp
qed

text \<open>
  C8. For every table built by a sequence of operations from a fresh table with a
  positive bucket count, every requested size, every key and both kinds of lookup:
  \<open>find\<close> after \<open>resize\<close> returns what it returned before; a requested size beyond
  the maximum leaves the table as it is, bucket count and contents; and a requested size
  within range becomes the bucket count.
\<close>

theorem resize_keeps_slots:
  assumes "0 < N"
  shows "let ht = apply_ops h auto os (new_HashTable N L) in
           find_slot h (resize h auto newSize ht) k wantsDeleted = find_slot h ht k wantsDeleted
           \<and> (max_ht_size < newSize \<longrightarrow> resize h auto newSize ht = ht)
           \<and> (0 < newSize \<and> newSize \<le> max_ht_size \<longrightarrow> ht_size (resize h auto newSize ht) = newSize)"
proof -
  have inv: "ht_inv h (apply_ops h auto os (new_HashTable N L))"
    using assms by (intro ht_inv_apply_ops ht_inv_new)
  show ?thesis
    using find_resize [OF inv] by (auto simp: Let_def resize_def)
qed

theorem resize_keeps_slots_witness:
  "(0::nat) < 5
   \<and> find_slot ex_hash (resize ex_hash (\<lambda>n. 769) 3 ex_table) ''dddddd'' False
       = Some (new_slot 4 (ex_item ''dddddd'' ''4''))
   \<and> find_slot ex_hash (resize ex_hash (\<lambda>n. 769) 6143 ex_table) ''dddddd'' False
       = Some (new_slot 4 (ex_item ''dddddd'' ''4''))
   \<and> resize ex_hash (\<lambda>n. 769) 2147483664 ex_table = ex_table
   \<and> ht_size (resize ex_hash (\<lambda>n. 769) 3 ex_table) = 3"
proof -
  have p: "(0::nat) < 5"
    by simp
  have a: "find_slot ex_hash ex_table ''dddddd'' False = Some (new_slot 4 (ex_item ''dddddd'' ''4''))"
    by code_simp
  have m: "max_ht_size < 2147483664" "(3::nat) \<le> max_ht_size"
    by (simp_all add: max_ht_size_def)
  from resize_keeps_slots [OF p, of ex_hash "\<lambda>n. 769" ex_ops 3 3 "''dddddd''" False]
    resize_keeps_slots [OF p, of ex_hash "\<lambda>n. 769" ex_ops 3 6143 "''dddddd''" False]
    resize_keeps_slots [OF p, of ex_hash "\<lambda>n. 769" ex_ops 3 2147483664 "''dddddd''" False]
    a m
  show ?thesis
    by (simp add: Let_def ex_table_def [symmetric])
qed

end
